theory Spec2Isabelle
  imports Complex_Main
begin

section \<open>The AxiDraw controller of p5.axidraw\<close>

text \<open>
  A shallow embedding of the class \<open>AxiDraw\<close> (the controller with \<open>setPenHeight\<close>,
  \<open>stop\<close> and the analog operations; the older \<open>src/index.js\<close> has the same code for
  the operations both files define).

  JavaScript numbers are modelled as reals: rounding and infinities are outside the
  model. The speed, and with it the duration of a move, is a number that may be NaN,
  since \<open>setSpeed\<close> stores what \<open>Math.max\<close> and \<open>Math.min\<close> return. The driver object \<open>this.ebb\<close> (package \<open>ebb-control\<close>) is external: the model
  records every call the controller makes on it, and the driver's answers (a promise
  resolving or rejecting, a timer firing) are events of the environment.
\<close>

subsection \<open>Constants\<close>

definition STEPS_PER_MM :: real where
  "STEPS_PER_MM = 80"

definition MAX_MM_PER_SEC :: real where
  "MAX_MM_PER_SEC = 380"

definition MIN_MM_PER_SEC :: real where
  "MIN_MM_PER_SEC = 131 / 100 / STEPS_PER_MM"

text \<open>The constants imported from \<open>ebb-control\<close> are kept symbolic.\<close>

datatype motor_mode = MOTOR_STEP_DIV16 | MOTOR_DISABLE

datatype servo_channel = SERVO_CHANNEL_PEN

subsection \<open>Data\<close>

record pos =
  px :: real
  py :: real

text \<open>
  A number that may be NaN. An argument that JavaScript converts to NaN (\<open>undefined\<close>, a
  string that is no numeral) is the input \<open>NaN\<close>.
\<close>

datatype number = NaN | Finite real

text \<open>The calls the controller makes on the driver object.\<close>

datatype ebb_call =
    Ebb_connect
  | Ebb_disconnect
  | Ebb_enableMotors motor_mode motor_mode
  | Ebb_queryStepPosition
  | Ebb_queryPen
  | Ebb_setPenState bool
  | Ebb_servoOutput int servo_channel int
  | Ebb_stepperMoveMixedAxis number real real
  | Ebb_emergencyStop bool
  | Ebb_analogConfigure real bool
  | Ebb_analogValueGet real
  | Ebb_memoryRead real

text \<open>
  The values a promise resolves with: \<open>undefined\<close>, a boolean, a number, the array
  \<open>[m1Steps, m2Steps]\<close>, the object \<open>{x, y}\<close>, and the object of analog readings
  (channel to raw value).
\<close>

datatype val =
    Undefined
  | Bool bool
  | Num real
  | StepArray real real
  | Position pos
  | AnalogValues "(real \<times> real) list"

datatype error = NotConnected | InvalidChannel | ChannelNotEnabled | TypeError | DriverFailure

datatype outcome = Fulfilled val | Rejected error

text \<open>
  An asynchronous function body from its current point on: it returns, throws, awaits
  a driver call (the call is made on reaching the \<open>await\<close>; the continuation takes the
  value the driver's promise resolves with), or awaits \<open>wait(ms)\<close>.
\<close>

datatype proc =
    Return val
  | Throw error
  | Await_ebb ebb_call "val \<Rightarrow> proc"
  | Await_wait number proc

text \<open>
  A thunk \<open>cmdFn\<close> handed to \<open>#command\<close>. Every thunk of the class starts by calling the
  driver, so a thunk is its first driver call and what follows the answer.
\<close>

type_synonym cmdFn = "ebb_call \<times> (val \<Rightarrow> proc)"

text \<open>Driver calls awaited outside the queue, by \<open>connect\<close>, \<open>disconnect\<close> and \<open>stop\<close>.\<close>

datatype direct_call = Connecting | Disconnecting | Stopping

text \<open>
  The fields of the object (\<open>connected\<close>, \<open>targetPos\<close>, \<open>lastCommandedPos\<close>, \<open>mmPerSec\<close>,
  \<open>commands\<close>) and what the runtime and the driver hold. Every call of a public
  method gets the next number \<open>next_id\<close>; an entry of \<open>commands\<close> is the closure
  \<open>executeCommand\<close> of the call with that number.
  \<^item> \<open>ebb_log\<close>: the calls received by the driver, in order, each with the number of the
    public call it was made for;
  \<^item> \<open>running\<close>: the thunks that were started and are suspended at an \<open>await\<close>;
  \<^item> \<open>direct\<close>: the driver calls awaited outside the queue;
  \<^item> \<open>fulfilled\<close>: the calls of \<open>fulfill(result)\<close> in \<open>#command\<close>, in order;
  \<^item> \<open>returned\<close>: the promises settled outside \<open>#command\<close>, in order;
  \<^item> \<open>unhandled\<close>: the thunks that threw (their rejection has no handler);
  \<^item> \<open>enqueued\<close>: the calls of \<open>#command\<close>, in order.
\<close>

record axidraw =
  connectedF :: bool
  targetPos :: pos
  lastCommandedPos :: pos
  mmPerSec :: number
  commands :: "(nat \<times> cmdFn) list"
  ebb_log :: "(nat \<times> ebb_call) list"
  running :: "(nat \<times> proc) list"
  direct :: "(nat \<times> direct_call) list"
  fulfilled :: "(nat \<times> val) list"
  returned :: "(nat \<times> outcome) list"
  unhandled :: "(nat \<times> error) list"
  enqueued :: "nat list"
  next_id :: nat

subsection \<open>Helpers of the module\<close>

definition distance :: "pos \<Rightarrow> pos \<Rightarrow> real" where
  "distance a b = sqrt ((px a - px b)\<^sup>2 + (py a - py b)\<^sup>2)"

text \<open>
  \<open>Math.min\<close> and \<open>Math.max\<close> return NaN when an argument is NaN; a comparison with NaN
  is false.
\<close>

fun Math_min :: "number \<Rightarrow> number \<Rightarrow> number" where
  "Math_min (Finite a) (Finite b) = Finite (min a b)"
| "Math_min a b = NaN"

fun Math_max :: "number \<Rightarrow> number \<Rightarrow> number" where
  "Math_max (Finite a) (Finite b) = Finite (max a b)"
| "Math_max a b = NaN"

fun less_than :: "number \<Rightarrow> real \<Rightarrow> bool" where
  "less_than (Finite a) b = (a < b)"
| "less_than NaN b = False"

text \<open>\<open>1000 * (d / v)\<close> for a number \<open>v\<close> that may be NaN.\<close>

fun millis :: "real \<Rightarrow> number \<Rightarrow> number" where
  "millis d (Finite v) = Finite (1000 * (d / v))"
| "millis d NaN = NaN"

text \<open>JavaScript's truthiness, for \<open>if (penDown)\<close>.\<close>

fun truthy :: "val \<Rightarrow> bool" where
  "truthy Undefined = False"
| "truthy (Bool b) = b"
| "truthy (Num r) = (r \<noteq> 0)"
| "truthy (StepArray a b) = True"
| "truthy (Position p) = True"
| "truthy (AnalogValues m) = True"

definition constructor :: axidraw where
  "constructor =
     \<lparr> connectedF = False,
       targetPos = \<lparr> px = 0, py = 0 \<rparr>,
       lastCommandedPos = \<lparr> px = 0, py = 0 \<rparr>,
       mmPerSec = Finite 25,
       commands = [],
       ebb_log = [], running = [], direct = [], fulfilled = [], returned = [],
       unhandled = [], enqueued = [], next_id = 0 \<rparr>"

subsection \<open>The command serializer\<close>

text \<open>
  A thunk of call \<open>i\<close> reaches the point \<open>p\<close>. At an \<open>await\<close> of the driver the call is
  made and the thunk is suspended; at \<open>wait(ms)\<close> it is suspended on the timer. When it
  returns, the callback given to \<open>then\<close> in \<open>executeCommand\<close> runs. When it throws, the
  promise of \<open>cmdFn()\<close> rejects: the callback does not run, and nothing else handles the
  rejection.
\<close>

definition executeCommand :: "nat \<Rightarrow> cmdFn \<Rightarrow> axidraw \<Rightarrow> axidraw" where
  "executeCommand i f s =
     s\<lparr> ebb_log := ebb_log s @ [(i, fst f)],
        running := running s @ [(i, Await_ebb (fst f) (snd f))] \<rparr>"

text \<open>
  The callback: \<open>fulfill(result)\<close>, \<open>this.commands.shift()\<close> (nothing on an empty
  array), and the new head, if there is one, is started.
\<close>

definition then_callback :: "nat \<Rightarrow> val \<Rightarrow> axidraw \<Rightarrow> axidraw" where
  "then_callback i result s =
     (let s1 = s\<lparr> fulfilled := fulfilled s @ [(i, result)],
                  commands := (case commands s of [] \<Rightarrow> [] | c # cs \<Rightarrow> cs) \<rparr>
      in case commands s1 of
           [] \<Rightarrow> s1
         | (j, f) # cs \<Rightarrow> executeCommand j f s1)"

fun proceed :: "nat \<Rightarrow> proc \<Rightarrow> axidraw \<Rightarrow> axidraw" where
  "proceed i (Await_ebb c k) s =
     s\<lparr> ebb_log := ebb_log s @ [(i, c)], running := running s @ [(i, Await_ebb c k)] \<rparr>"
| "proceed i (Await_wait ms p) s = s\<lparr> running := running s @ [(i, Await_wait ms p)] \<rparr>"
| "proceed i (Return v) s = then_callback i v s"
| "proceed i (Throw e) s = s\<lparr> unhandled := unhandled s @ [(i, e)] \<rparr>"

text \<open>\<open>#command(cmdFn)\<close>, for the public call number \<open>i\<close>.\<close>

definition command :: "nat \<Rightarrow> cmdFn \<Rightarrow> axidraw \<Rightarrow> axidraw" where
  "command i f s =
     (let pending = (length (commands s) > 0);
          s1 = s\<lparr> commands := commands s @ [(i, f)], enqueued := enqueued s @ [i] \<rparr>
      in if \<not> pending then executeCommand i f s1 else s1)"

definition isBusy :: "axidraw \<Rightarrow> bool" where
  "isBusy s = (length (commands s) > 0)"

subsection \<open>The public operations\<close>

text \<open>A promise settled by the operation itself (an early \<open>return\<close>, a \<open>throw\<close>).\<close>

definition settle :: "nat \<Rightarrow> outcome \<Rightarrow> axidraw \<Rightarrow> axidraw" where
  "settle i r s = s\<lparr> returned := returned s @ [(i, r)] \<rparr>"

definition connect :: "nat \<Rightarrow> axidraw \<Rightarrow> axidraw" where
  "connect i s =
     (if connectedF s then settle i (Fulfilled Undefined) s
      else s\<lparr> ebb_log := ebb_log s @ [(i, Ebb_connect)],
              direct := direct s @ [(i, Connecting)] \<rparr>)"

definition disconnect :: "nat \<Rightarrow> axidraw \<Rightarrow> axidraw" where
  "disconnect i s =
     (if \<not> connectedF s then settle i (Fulfilled Undefined) s
      else s\<lparr> ebb_log := ebb_log s @ [(i, Ebb_disconnect)],
              direct := direct s @ [(i, Disconnecting)] \<rparr>)"

definition enable :: "nat \<Rightarrow> axidraw \<Rightarrow> axidraw" where
  "enable i s =
     (if \<not> connectedF s then settle i (Fulfilled Undefined) s
      else command i (Ebb_enableMotors MOTOR_STEP_DIV16 MOTOR_STEP_DIV16, \<lambda>r. Return r) s)"

definition disable :: "nat \<Rightarrow> axidraw \<Rightarrow> axidraw" where
  "disable i s =
     (if \<not> connectedF s then settle i (Fulfilled Undefined) s
      else command i (Ebb_enableMotors MOTOR_DISABLE MOTOR_DISABLE, \<lambda>r. Return r) s)"

text \<open>
  The thunk of \<open>currentPosition\<close>: the destructuring \<open>[m1Steps, m2Steps]\<close> of an answer
  that is not an array throws.
\<close>

definition currentPosition_cmd :: cmdFn where
  "currentPosition_cmd =
     (Ebb_queryStepPosition,
      \<lambda>r. case r of
             StepArray m1Steps m2Steps \<Rightarrow>
               Return (Position \<lparr> px = 0.5 * ((m1Steps + m2Steps) / STEPS_PER_MM),
                                  py = 0.5 * ((m1Steps - m2Steps) / STEPS_PER_MM) \<rparr>)
           | _ \<Rightarrow> Throw TypeError)"

definition currentPosition :: "nat \<Rightarrow> axidraw \<Rightarrow> axidraw" where
  "currentPosition i s =
     (if \<not> connectedF s then settle i (Rejected NotConnected) s
      else command i currentPosition_cmd s)"

definition penUp_cmd :: cmdFn where
  "penUp_cmd =
     (Ebb_queryPen,
      \<lambda>penDown. Await_ebb (Ebb_setPenState False)
        (\<lambda>_. if truthy penDown then Await_wait (Finite 1000) (Return Undefined)
              else Return Undefined))"

definition penUp :: "nat \<Rightarrow> axidraw \<Rightarrow> axidraw" where
  "penUp i s =
     (if \<not> connectedF s then settle i (Fulfilled Undefined) s
      else command i penUp_cmd s)"

definition penDown_cmd :: cmdFn where
  "penDown_cmd =
     (Ebb_queryPen,
      \<lambda>penDown. Await_ebb (Ebb_setPenState True)
        (\<lambda>_. if \<not> truthy penDown then Await_wait (Finite 1000) (Return Undefined)
              else Return Undefined))"

definition penDown :: "nat \<Rightarrow> axidraw \<Rightarrow> axidraw" where
  "penDown i s =
     (if \<not> connectedF s then settle i (Fulfilled Undefined) s
      else command i penDown_cmd s)"

text \<open>\<open>setPenHeight\<close> has no test of \<open>connected\<close>.\<close>

definition setPenHeight :: "real \<Rightarrow> nat \<Rightarrow> axidraw \<Rightarrow> axidraw" where
  "setPenHeight normalizedHeight i s =
     (let height = \<lfloor>max (min ((1 - normalizedHeight) * 65535) 65535) 0\<rfloor>
      in command i (Ebb_servoOutput height SERVO_CHANNEL_PEN 32000, \<lambda>r. Return r) s)"

definition setSpeed :: "number \<Rightarrow> axidraw \<Rightarrow> axidraw" where
  "setSpeed v s =
     s\<lparr> mmPerSec := Math_max (Math_min v (Finite MAX_MM_PER_SEC)) (Finite MIN_MM_PER_SEC) \<rparr>"

definition moveTo :: "real \<Rightarrow> real \<Rightarrow> nat \<Rightarrow> axidraw \<Rightarrow> axidraw" where
  "moveTo x y i s =
     (if \<not> connectedF s then settle i (Fulfilled Undefined) s
      else
        let s1 = s\<lparr> targetPos := \<lparr> px = x, py = y \<rparr> \<rparr>;
            distanceToTarget = distance (lastCommandedPos s1) (targetPos s1);
            timeToTarget = millis distanceToTarget (mmPerSec s1)
        in if less_than timeToTarget 1 then settle i (Fulfilled Undefined) s1
           else
             let delta = \<lparr> px = px (targetPos s1) - px (lastCommandedPos s1),
                           py = py (targetPos s1) - py (lastCommandedPos s1) \<rparr>;
                 steps = \<lparr> px = px delta * STEPS_PER_MM, py = py delta * STEPS_PER_MM \<rparr>;
                 s2 = s1\<lparr> lastCommandedPos := targetPos s1 \<rparr>
             in command i
                  (Ebb_stepperMoveMixedAxis timeToTarget (px steps) (py steps),
                   \<lambda>_. Await_wait timeToTarget (Return Undefined)) s2)"

definition stop :: "nat \<Rightarrow> axidraw \<Rightarrow> axidraw" where
  "stop i s =
     (if \<not> connectedF s then settle i (Fulfilled Undefined) s
      else s\<lparr> ebb_log := ebb_log s @ [(i, Ebb_emergencyStop False)],
              direct := direct s @ [(i, Stopping)],
              commands := [] \<rparr>)"

definition analogConfigure :: "real \<Rightarrow> bool \<Rightarrow> nat \<Rightarrow> axidraw \<Rightarrow> axidraw" where
  "analogConfigure channel enabled i s =
     (if \<not> connectedF s then settle i (Fulfilled Undefined) s
      else if channel < 0 \<or> channel > 12 then settle i (Rejected InvalidChannel) s
      else command i (Ebb_analogConfigure channel enabled, \<lambda>_. Return Undefined) s)"

text \<open>
  The thunk of \<open>analogRead\<close>: \<open>channel in analogValues\<close> on an answer that is not an
  object throws.
\<close>

definition analogRead_cmd :: "real \<Rightarrow> cmdFn" where
  "analogRead_cmd channel =
     (Ebb_analogValueGet channel,
      \<lambda>r. case r of
             AnalogValues analogValues \<Rightarrow>
               (case map_of analogValues channel of
                  None \<Rightarrow> Throw ChannelNotEnabled
                | Some raw \<Rightarrow> Return (Num (raw / 1023)))
           | _ \<Rightarrow> Throw TypeError)"

definition analogRead :: "real \<Rightarrow> nat \<Rightarrow> axidraw \<Rightarrow> axidraw" where
  "analogRead channel i s =
     (if \<not> connectedF s then settle i (Fulfilled Undefined) s
      else command i (analogRead_cmd channel) s)"

definition memoryRead :: "real \<Rightarrow> nat \<Rightarrow> axidraw \<Rightarrow> axidraw" where
  "memoryRead address i s =
     (if \<not> connectedF s then settle i (Fulfilled Undefined) s
      else command i (Ebb_memoryRead address, \<lambda>r. Return r) s)"

subsection \<open>Events\<close>

datatype api =
    Connect
  | Disconnect
  | Enable
  | Disable
  | CurrentPosition
  | PenUp
  | PenDown
  | SetPenHeight real
  | SetSpeed number
  | MoveTo real real
  | Stop
  | AnalogConfigure real bool
  | AnalogRead real
  | MemoryRead real

fun invoke :: "api \<Rightarrow> nat \<Rightarrow> axidraw \<Rightarrow> axidraw" where
  "invoke Connect i s = connect i s"
| "invoke Disconnect i s = disconnect i s"
| "invoke Enable i s = enable i s"
| "invoke Disable i s = disable i s"
| "invoke CurrentPosition i s = currentPosition i s"
| "invoke PenUp i s = penUp i s"
| "invoke PenDown i s = penDown i s"
| "invoke (SetPenHeight h) i s = setPenHeight h i s"
| "invoke (SetSpeed v) i s = setSpeed v s"
| "invoke (MoveTo x y) i s = moveTo x y i s"
| "invoke Stop i s = stop i s"
| "invoke (AnalogConfigure c e) i s = analogConfigure c e i s"
| "invoke (AnalogRead c) i s = analogRead c i s"
| "invoke (MemoryRead a) i s = memoryRead a i s"

text \<open>
  The driver's promise of a call awaited outside the queue resolves: \<open>connect\<close> and
  \<open>disconnect\<close> set \<open>connected\<close> and return; \<open>stop\<close> returned the driver's promise
  itself.
\<close>

fun direct_resolved :: "nat \<Rightarrow> direct_call \<Rightarrow> val \<Rightarrow> axidraw \<Rightarrow> axidraw" where
  "direct_resolved i Connecting v s = settle i (Fulfilled Undefined) (s\<lparr> connectedF := True \<rparr>)"
| "direct_resolved i Disconnecting v s = settle i (Fulfilled Undefined) (s\<lparr> connectedF := False \<rparr>)"
| "direct_resolved i Stopping v s = settle i (Fulfilled v) s"

definition forget :: "nat \<Rightarrow> (nat \<times> 'a) list \<Rightarrow> (nat \<times> 'a) list" where
  "forget i xs = filter (\<lambda>e. fst e \<noteq> i) xs"

text \<open>
  What happens, one event at a time: a public method is called (its synchronous part
  runs), the driver resolves or rejects the call that operation \<open>i\<close> awaits, or the
  timer that operation \<open>i\<close> awaits fires. An event that nothing awaits changes nothing.
  A thunk resumed by an event runs to its next \<open>await\<close>; when it returns, the callback
  of \<open>executeCommand\<close> runs with it.
\<close>

datatype event =
    Invoke api
  | EbbResolves nat val
  | EbbRejects nat
  | TimerFires nat

fun step :: "event \<Rightarrow> axidraw \<Rightarrow> axidraw" where
  "step (Invoke a) s = invoke a (next_id s) (s\<lparr> next_id := next_id s + 1 \<rparr>)"
| "step (EbbResolves i v) s =
     (case map_of (running s) i of
        Some (Await_ebb c k) \<Rightarrow> proceed i (k v) (s\<lparr> running := forget i (running s) \<rparr>)
      | Some _ \<Rightarrow> s
      | None \<Rightarrow>
          (case map_of (direct s) i of
             None \<Rightarrow> s
           | Some d \<Rightarrow> direct_resolved i d v (s\<lparr> direct := forget i (direct s) \<rparr>)))"
| "step (EbbRejects i) s =
     (case map_of (running s) i of
        Some (Await_ebb c k) \<Rightarrow>
          s\<lparr> running := forget i (running s), unhandled := unhandled s @ [(i, DriverFailure)] \<rparr>
      | Some _ \<Rightarrow> s
      | None \<Rightarrow>
          (case map_of (direct s) i of
             None \<Rightarrow> s
           | Some d \<Rightarrow> settle i (Rejected DriverFailure) (s\<lparr> direct := forget i (direct s) \<rparr>)))"
| "step (TimerFires i) s =
     (case map_of (running s) i of
        Some (Await_wait ms p) \<Rightarrow> proceed i p (s\<lparr> running := forget i (running s) \<rparr>)
      | _ \<Rightarrow> s)"

fun run :: "event list \<Rightarrow> axidraw \<Rightarrow> axidraw" where
  "run [] s = s"
| "run (e # es) s = run es (step e s)"


subsection \<open>Reference states\<close>

text \<open>A connected controller with nothing to do.\<close>

definition connected_idle :: axidraw where
  "connected_idle = run [Invoke Connect, EbbResolves 0 Undefined] constructor"

text \<open>Three moves requested back to back: the first is in flight, two wait.\<close>

definition three_moves :: axidraw where
  "three_moves =
     run [Invoke (MoveTo 10 0), Invoke (MoveTo 10 10), Invoke (MoveTo 0 10)] connected_idle"

text \<open>
  An analog read on a channel that was never enabled, a move requested behind it, and
  the driver's answer to the read: no reading for the channel.
\<close>

definition failed_read :: axidraw where
  "failed_read =
     run [Invoke (AnalogRead 3), Invoke (MoveTo 10 0), EbbResolves 1 (AnalogValues [])]
       connected_idle"

text \<open>
  \<open>enable\<close>, \<open>stop\<close> and \<open>disable\<close> called one after the other on a connected
  controller, and then the driver's answers, to \<open>disable\<close> first.
\<close>

definition after_stop :: axidraw where
  "after_stop = run [Invoke Enable, Invoke Stop, Invoke Disable] connected_idle"

definition after_stop_answers :: axidraw where
  "after_stop_answers = run [EbbResolves 3 Undefined, EbbResolves 1 Undefined] after_stop"

subsection \<open>Observations and invariants\<close>

text \<open>A sequence of events in which \<open>stop\<close> is not called.\<close>

definition stop_free :: "event list \<Rightarrow> bool" where
  "stop_free evs = (Invoke Stop \<notin> set evs)"

text \<open>
  A sequence of events, from the state \<open>s\<close> on, in which \<open>stop\<close> is called only while the
  controller is not connected or its queue is empty.
\<close>

fun calm :: "event list \<Rightarrow> axidraw \<Rightarrow> bool" where
  "calm [] s = True"
| "calm (e # es) s =
     ((if e = Invoke Stop then \<not> connectedF s \<or> commands s = [] else True)
      \<and> calm es (step e s))"

text \<open>
  The public calls that hand an operation to the serializer in the state \<open>s\<close>, by the
  table of operations: \<open>setPenHeight\<close> always; \<open>enable\<close>, \<open>disable\<close>, \<open>currentPosition\<close>,
  \<open>penUp\<close>, \<open>penDown\<close>, \<open>analogRead\<close> and \<open>memoryRead\<close> when connected; \<open>analogConfigure\<close>
  when connected and the channel is in range; \<open>moveTo\<close> when connected and the travel
  time is not below 1 ms; the others never.
\<close>

fun submits :: "api \<Rightarrow> axidraw \<Rightarrow> bool" where
  "submits Connect s = False"
| "submits Disconnect s = False"
| "submits (SetSpeed v) s = False"
| "submits Stop s = False"
| "submits (SetPenHeight h) s = True"
| "submits (AnalogConfigure c e) s = (connectedF s \<and> 0 \<le> c \<and> c \<le> 12)"
| "submits (MoveTo x y) s =
     (connectedF s
      \<and> \<not> less_than (millis (distance (lastCommandedPos s) \<lparr> px = x, py = y \<rparr>) (mmPerSec s)) 1)"
| "submits a s = connectedF s"

text \<open>
  The step from \<open>s\<close> to \<open>s'\<close> completes operation \<open>i\<close> with the result \<open>r\<close>: its promise
  is fulfilled, the head of the queue is removed, and the new head, if there is one,
  is started: its thunk is the one in flight and the driver receives its first call.
\<close>

definition completes :: "nat \<Rightarrow> val \<Rightarrow> axidraw \<Rightarrow> axidraw \<Rightarrow> bool" where
  "completes i r s s' =
     (fulfilled s' = fulfilled s @ [(i, r)]
      \<and> commands s' = tl (commands s)
      \<and> running s' = (case commands s' of [] \<Rightarrow> []
                         | (j, g) # cs \<Rightarrow> [(j, Await_ebb (fst g) (snd g))])
      \<and> ebb_log s' = ebb_log s @ (case commands s' of [] \<Rightarrow> []
                                    | (j, g) # cs \<Rightarrow> [(j, fst g)]))"

text \<open>The number of the call at the head of a queue, if there is one.\<close>

fun head_id :: "(nat \<times> 'a) list \<Rightarrow> nat list" where
  "head_id [] = []"
| "head_id (c # cs) = [fst c]"

text \<open>The driver calls made for call \<open>j\<close>, and how the promise of call \<open>j\<close> was settled
  outside \<open>#command\<close>.\<close>

definition calls_of :: "nat \<Rightarrow> axidraw \<Rightarrow> ebb_call list" where
  "calls_of j s = map snd (filter (\<lambda>e. fst e = j) (ebb_log s))"

definition settled_of :: "nat \<Rightarrow> axidraw \<Rightarrow> outcome list" where
  "settled_of j s = map snd (filter (\<lambda>r. fst r = j) (returned s))"

text \<open>
  The serializer's invariant: the enqueued calls are the fulfilled ones followed by
  the queue; at most one thunk is in flight, and it is the head of the queue; the head
  of the queue is in flight or has thrown; every driver call made for an enqueued call
  was made for a fulfilled one or for the head; call numbers are older than \<open>next_id\<close>.
\<close>

definition serial :: "axidraw \<Rightarrow> bool" where
  "serial s =
     (map fst (fulfilled s) @ map fst (commands s) = enqueued s
      \<and> (running s = [] \<or> map fst (running s) = head_id (commands s))
      \<and> set (head_id (commands s)) \<subseteq> fst ` set (running s) \<union> fst ` set (unhandled s)
      \<and> (\<forall>e \<in> set (ebb_log s). fst e \<in> set (enqueued s) \<longrightarrow>
            fst e \<in> fst ` set (fulfilled s) \<union> set (head_id (commands s)))
      \<and> (\<forall>e \<in> set (ebb_log s). fst e < next_id s)
      \<and> (\<forall>i \<in> set (enqueued s). i < next_id s))"

text \<open>Call \<open>j\<close> was made, and is neither queued nor in flight.\<close>

definition dropped :: "nat \<Rightarrow> axidraw \<Rightarrow> bool" where
  "dropped j s = (j < next_id s \<and> j \<notin> fst ` set (running s) \<and> j \<notin> fst ` set (commands s))"

text \<open>The queue is not empty and no thunk is in flight; call \<open>j\<close> was made and awaits no
  driver call outside the queue.\<close>

definition stalled :: "axidraw \<Rightarrow> bool" where
  "stalled s = (running s = [] \<and> commands s \<noteq> [])"

definition stuck :: "nat \<Rightarrow> axidraw \<Rightarrow> bool" where
  "stuck j s = (stalled s \<and> j < next_id s \<and> j \<notin> fst ` set (direct s))"

text \<open>Every call number in use is older than \<open>next_id\<close>; the speed is in its range or
  NaN.\<close>

definition ids_below :: "axidraw \<Rightarrow> bool" where
  "ids_below s =
     ((\<forall>c \<in> set (commands s). fst c < next_id s)
      \<and> (\<forall>r \<in> set (running s). fst r < next_id s)
      \<and> (\<forall>d \<in> set (direct s). fst d < next_id s)
      \<and> (\<forall>e \<in> set (ebb_log s). fst e < next_id s))"

fun speed_in_range :: "number \<Rightarrow> bool" where
  "speed_in_range (Finite v) = (MIN_MM_PER_SEC \<le> v \<and> v \<le> MAX_MM_PER_SEC)"
| "speed_in_range NaN = False"

definition speed_ok :: "axidraw \<Rightarrow> bool" where
  "speed_ok s = (mmPerSec s = NaN \<or> speed_in_range (mmPerSec s))"

section \<open>Properties\<close>

subsection \<open>Evaluation and frame lemmas\<close>

lemmas op_defs = connect_def disconnect_def enable_def disable_def currentPosition_def penUp_def
  penDown_def setPenHeight_def setSpeed_def moveTo_def stop_def analogConfigure_def analogRead_def
  memoryRead_def settle_def command_def executeCommand_def then_callback_def forget_def

lemmas guard_defs = connect_def disconnect_def enable_def disable_def currentPosition_def
  penUp_def penDown_def setPenHeight_def analogConfigure_def analogRead_def memoryRead_def

lemma connected_idle_eq:
  "connected_idle =
     constructor\<lparr> connectedF := True, ebb_log := [(0, Ebb_connect)],
                  returned := [(0, Fulfilled Undefined)], next_id := 1 \<rparr>"
  by (simp add: connected_idle_def op_defs constructor_def)

lemma map_of_fst: "map_of xs i = Some q \<Longrightarrow> i \<in> fst ` set xs"
  by (metis map_of_SomeD fst_conv image_eqI)

lemma forget_absent: "i \<notin> fst ` set xs \<Longrightarrow> forget i (xs @ [(i, p)]) = xs"
  by (force simp: forget_def filter_id_conv)

lemma map_of_append_absent:
  assumes "i \<notin> fst ` set xs"
  shows "map_of (xs @ [(i, p)]) i = Some p"
proof -
  from assms have "map_of xs i = None"
    by (simp add: map_of_eq_None_iff)
  then show ?thesis
    by (simp add: map_add_def)
qed

lemma resolve_running:
  assumes "i \<notin> fst ` set rs" and "running t = rs @ [(i, Await_ebb c k)]"
  shows "step (EbbResolves i v) t = proceed i (k v) (t\<lparr> running := rs \<rparr>)"
  using map_of_append_absent [OF assms(1)] forget_absent [OF assms(1)] assms(2)
  by simp

lemma timer_running:
  assumes "i \<notin> fst ` set rs" and "running t = rs @ [(i, Await_wait ms p)]"
  shows "step (TimerFires i) t = proceed i p (t\<lparr> running := rs \<rparr>)"
  using map_of_append_absent [OF assms(1)] forget_absent [OF assms(1)] assms(2)
  by simp

lemma command_targetPos:
  "command i f (s\<lparr> targetPos := tp \<rparr>) = (command i f s)\<lparr> targetPos := tp \<rparr>"
  by (simp add: command_def executeCommand_def Let_def)

lemma command_lastCommandedPos:
  "command i f (s\<lparr> lastCommandedPos := lp \<rparr>) = (command i f s)\<lparr> lastCommandedPos := lp \<rparr>"
  by (simp add: command_def executeCommand_def Let_def)

lemma direct_resolved_fields [simp]:
  "running (direct_resolved i d v s) = running s"
  "commands (direct_resolved i d v s) = commands s"
  "next_id (direct_resolved i d v s) = next_id s"
  "direct (direct_resolved i d v s) = direct s"
  "fulfilled (direct_resolved i d v s) = fulfilled s"
  "ebb_log (direct_resolved i d v s) = ebb_log s"
  "mmPerSec (direct_resolved i d v s) = mmPerSec s"
  by (cases d; simp add: settle_def)+

lemma settled_of_direct [simp]: "settled_of j (s\<lparr> direct := d \<rparr>) = settled_of j s"
  by (simp add: settled_of_def)

lemma direct_resolved_settled:
  "i \<noteq> j \<Longrightarrow> settled_of j (direct_resolved i d v s) = settled_of j s"
  by (cases d; simp add: settle_def settled_of_def)

subsection \<open>Every state the controller reaches\<close>

lemma mmPerSec_command [simp]: "mmPerSec (command i f s) = mmPerSec s"
  by (simp add: command_def executeCommand_def Let_def)

lemma mmPerSec_proceed [simp]: "mmPerSec (proceed i p s) = mmPerSec s"
  by (cases p) (simp_all add: then_callback_def executeCommand_def Let_def split: list.splits)

lemma speed_ok_setSpeed: "speed_ok (setSpeed v s)"
  by (cases v)
    (simp_all add: speed_ok_def setSpeed_def MIN_MM_PER_SEC_def MAX_MM_PER_SEC_def
      STEPS_PER_MM_def)

lemma speed_ok_step: "speed_ok s \<Longrightarrow> speed_ok (step e s)"
proof (cases e)
  case (Invoke a)
  assume s: "speed_ok s"
  show ?thesis
  proof (cases a)
    case (SetSpeed v)
    with Invoke speed_ok_setSpeed [of v "s\<lparr> next_id := next_id s + 1 \<rparr>"] show ?thesis
      by simp
  qed (use Invoke s in \<open>auto simp: speed_ok_def guard_defs moveTo_def stop_def settle_def
        Let_def\<close>)
qed (auto simp: speed_ok_def settle_def split: option.splits proc.splits)

lemma speed_ok_run: "speed_ok s \<Longrightarrow> speed_ok (run evs s)"
  by (induction evs arbitrary: s) (auto simp: speed_ok_step)

text \<open>
  The speed of a controller is NaN or a number in the range, whatever was called on
  it; in the range it is positive.
\<close>

lemma reachable_speed: "speed_ok (run evs constructor)"
proof -
  have "speed_ok constructor"
    by (simp add: speed_ok_def constructor_def MIN_MM_PER_SEC_def MAX_MM_PER_SEC_def
        STEPS_PER_MM_def)
  from speed_ok_run [OF this] show ?thesis .
qed

lemma speed_in_range_positive: "speed_in_range (Finite v) \<Longrightarrow> 0 < v"
  by (simp add: MIN_MM_PER_SEC_def STEPS_PER_MM_def)

lemma ids_below_command:
  "ids_below s \<Longrightarrow> ids_below (command (next_id s) f (s\<lparr> next_id := Suc (next_id s) \<rparr>))"
  by (auto simp: ids_below_def command_def executeCommand_def Let_def less_Suc_eq)

lemma ids_below_proceed:
  assumes "ids_below s" and "map_of (running s) i = Some q"
  shows "ids_below (proceed i p (s\<lparr> running := forget i (running s) \<rparr>))"
proof -
  from map_of_SomeD [OF assms(2)] assms(1) have i: "i < next_id s"
    by (force simp: ids_below_def)
  show ?thesis
  proof (cases p)
    case (Return v)
    with assms(1) i show ?thesis
      by (cases "commands s"; cases "tl (commands s)")
        (auto simp: ids_below_def then_callback_def executeCommand_def forget_def, fastforce+)
  qed (use assms(1) i in \<open>auto simp: ids_below_def forget_def\<close>)
qed

lemma ids_below_step: "ids_below s \<Longrightarrow> ids_below (step e s)"
proof (cases e)
  case (Invoke a)
  assume s: "ids_below s"
  show ?thesis
  proof (cases a)
    case (MoveTo x y)
    with Invoke s show ?thesis
      by (auto simp: ids_below_def moveTo_def settle_def command_def executeCommand_def Let_def
          less_Suc_eq)
  qed (use Invoke s ids_below_command [OF s] in \<open>auto simp: guard_defs setSpeed_def stop_def
        settle_def Let_def ids_below_def less_Suc_eq\<close>)
next
  case (EbbResolves i v)
  assume "ids_below s"
  with EbbResolves show ?thesis
    by (auto simp: ids_below_proceed split: option.splits proc.splits)
       (auto simp: ids_below_def forget_def)
next
  case (EbbRejects i)
  assume "ids_below s"
  with EbbRejects show ?thesis
    by (auto simp: ids_below_def forget_def settle_def split: option.splits proc.splits)
next
  case (TimerFires i)
  assume "ids_below s"
  with TimerFires show ?thesis
    by (auto simp: ids_below_proceed split: option.splits proc.splits)
qed

text \<open>The number of the next call is not in use, whatever was called before.\<close>

lemma reachable_ids: "ids_below (run evs constructor)"
proof -
  have "ids_below s \<Longrightarrow> ids_below (run evs s)" for s
    by (induction evs arbitrary: s) (auto simp: ids_below_step)
  moreover have "ids_below constructor"
    by (simp add: ids_below_def constructor_def)
  ultimately show ?thesis by blast
qed

subsection \<open>The serializer's invariant\<close>

lemma head_id_append [simp]: "cs \<noteq> [] \<Longrightarrow> head_id (cs @ ds) = head_id cs"
  by (cases cs) simp_all

lemma serial_settle [simp]: "serial (settle i r s) = serial s"
  by (simp add: serial_def settle_def)

lemma serial_frame [simp]:
  "serial (s\<lparr> targetPos := tp \<rparr>) = serial s"
  "serial (s\<lparr> lastCommandedPos := lp \<rparr>) = serial s"
  "serial (s\<lparr> mmPerSec := v \<rparr>) = serial s"
  "serial (s\<lparr> connectedF := b \<rparr>) = serial s"
  "serial (s\<lparr> direct := d \<rparr>) = serial s"
  "serial (s\<lparr> returned := r \<rparr>) = serial s"
  by (simp_all add: serial_def)

lemma serial_constructor: "serial constructor"
  by (simp add: serial_def constructor_def)

lemma serial_command:
  assumes "serial s"
  shows "serial (command (next_id s) f (s\<lparr> next_id := next_id s + 1 \<rparr>))"
proof (cases "commands s")
  case Nil
  with assms have "running s = []" by (simp add: serial_def)
  with Nil assms show ?thesis
    by (auto simp: serial_def command_def executeCommand_def Let_def)
next
  case (Cons c cs)
  with assms show ?thesis
    by (auto simp: serial_def command_def Let_def less_Suc_eq)
qed

lemma serial_next_id: "serial s \<Longrightarrow> serial (s\<lparr> next_id := next_id s + 1 \<rparr>)"
  by (auto simp: serial_def less_Suc_eq)

lemma serial_direct_call:
  "serial s \<Longrightarrow>
   serial (s\<lparr> next_id := next_id s + 1, ebb_log := ebb_log s @ [(next_id s, c)],
              direct := direct s @ [(next_id s, d)] \<rparr>)"
  by (auto simp: serial_def less_Suc_eq)

lemma serial_invoke:
  assumes "serial s" and "a \<noteq> Stop"
  shows "serial (invoke a (next_id s) (s\<lparr> next_id := next_id s + 1 \<rparr>))"
proof -
  note cmd = serial_command [OF assms(1)]
  note nxt = serial_next_id [OF assms(1)]
  note dir = serial_direct_call [OF assms(1)]
  show ?thesis
  proof (cases a)
    case (MoveTo x y)
    then show ?thesis using cmd nxt
      by (simp add: moveTo_def Let_def command_targetPos command_lastCommandedPos)
  next
    case (SetSpeed v)
    then show ?thesis using nxt by (simp add: setSpeed_def)
  qed (use assms cmd nxt dir in \<open>simp_all add: guard_defs Let_def\<close>)
qed

lemma serial_running:
  assumes "serial s" and "map_of (running s) i = Some q"
  obtains f cs where "commands s = (i, f) # cs" and "running s = [(i, q)]"
proof -
  from assms(2) have ne: "running s \<noteq> []" by auto
  with assms(1) have m: "map fst (running s) = head_id (commands s)"
    by (simp add: serial_def)
  with ne obtain c cs where c: "commands s = c # cs"
    by (cases "commands s") auto
  with m obtain q' where r: "running s = [(fst c, q')]"
    by (cases "running s") auto
  with assms(2) have "i = fst c" and "q' = q"
    by (auto split: if_splits)
  with c r that [of "snd c" cs] show thesis by simp
qed

lemma serial_log:
  assumes "serial s" and "(j, c) \<in> set (ebb_log s)"
  shows "j < next_id s"
    and "j \<in> set (enqueued s) \<Longrightarrow>
         j \<in> fst ` set (fulfilled s) \<or> j \<in> set (head_id (commands s))"
proof -
  from assms(1) have "\<forall>e \<in> set (ebb_log s). fst e < next_id s"
    by (simp add: serial_def)
  from bspec [OF this assms(2)] show "j < next_id s" by simp
  from assms(1) have "\<forall>e \<in> set (ebb_log s). fst e \<in> set (enqueued s) \<longrightarrow>
            fst e \<in> fst ` set (fulfilled s) \<union> set (head_id (commands s))"
    by (simp add: serial_def)
  from bspec [OF this assms(2)]
  show "j \<in> set (enqueued s) \<Longrightarrow>
        j \<in> fst ` set (fulfilled s) \<or> j \<in> set (head_id (commands s))"
    by simp
qed

lemma serial_enqueued:
  assumes "serial s"
  shows "enqueued s = map fst (fulfilled s) @ map fst (commands s)"
    and "j \<in> set (enqueued s) \<Longrightarrow> j < next_id s"
  using assms by (auto simp: serial_def)

lemma serial_return:
  assumes "serial s" and c: "commands s = (i, f) # cs" and r: "running s = [(i, q)]"
  shows "serial (then_callback i v (s\<lparr> running := [] \<rparr>))"
proof (cases cs)
  case Nil
  have "j \<in> fst ` set (fulfilled s) \<or> j = i"
    if "(j, d) \<in> set (ebb_log s)" and "j \<in> set (enqueued s)" for j d
    using serial_log(2) [OF assms(1) that] c by auto
  then show ?thesis
    using Nil c serial_enqueued [OF assms(1)] serial_log(1) [OF assms(1)]
    by (auto simp: serial_def then_callback_def)
next
  case (Cons g cs')
  have l: "j \<in> fst ` set (fulfilled s) \<or> j = i"
    if "(j, d) \<in> set (ebb_log s)" and "j \<in> set (enqueued s)" for j d
    using serial_log(2) [OF assms(1) that] c by auto
  have e: "enqueued s = map fst (fulfilled s) @ i # fst g # map fst cs'"
    using serial_enqueued(1) [OF assms(1)] c Cons by simp
  have "fst g < next_id s"
    using serial_enqueued(2) [OF assms(1), of "fst g"] e by simp
  then show ?thesis
    using Cons c e l serial_enqueued(2) [OF assms(1)] serial_log(1) [OF assms(1)]
    apply (cases g)
    apply (simp add: serial_def then_callback_def executeCommand_def)
    apply (intro conjI ballI impI)
     apply (metis fst_conv prod.collapse)
    apply (metis fst_conv prod.collapse)
    done
qed

lemma serial_proceed:
  assumes "serial s" and "map_of (running s) i = Some q"
  shows "serial (proceed i p (s\<lparr> running := forget i (running s) \<rparr>))"
proof -
  from assms obtain f cs where c: "commands s = (i, f) # cs" and r: "running s = [(i, q)]"
    by (rule serial_running)
  from serial_enqueued [OF assms(1)] c have i: "i < next_id s"
    by simp
  show ?thesis
  proof (cases p)
    case (Return v)
    with serial_return [OF assms(1) c r] r show ?thesis
      by (simp add: forget_def)
  qed (use assms(1) c r i in \<open>auto simp: serial_def forget_def\<close>)
qed

lemma serial_reject:
  assumes "serial s" and "map_of (running s) i = Some q"
  shows "serial (s\<lparr> running := forget i (running s), unhandled := unhandled s @ [(i, e)] \<rparr>)"
proof -
  from assms obtain f cs where c: "commands s = (i, f) # cs" and r: "running s = [(i, q)]"
    by (rule serial_running)
  with assms(1) show ?thesis
    by (auto simp: serial_def forget_def)
qed

lemma serial_direct_resolved [simp]: "serial (direct_resolved i d v s) = serial s"
  by (cases d) simp_all

lemma serial_stop:
  assumes "serial s" and "\<not> connectedF s \<or> commands s = []"
  shows "serial (stop (next_id s) (s\<lparr> next_id := next_id s + 1 \<rparr>))"
proof (cases "connectedF s")
  case False
  with serial_next_id [OF assms(1)] show ?thesis
    by (simp add: stop_def)
next
  case True
  with assms(2) have c: "commands s = []" by simp
  with assms(1) have "running s = []" by (simp add: serial_def)
  with True c assms(1) show ?thesis
    by (auto simp: stop_def serial_def less_Suc_eq)
qed

lemma serial_step:
  assumes "serial s" and "e = Invoke Stop \<Longrightarrow> \<not> connectedF s \<or> commands s = []"
  shows "serial (step e s)"
proof (cases e)
  case (Invoke a)
  show ?thesis
  proof (cases "a = Stop")
    case True
    with Invoke assms serial_stop [of s] show ?thesis by simp
  next
    case False
    with Invoke assms(1) serial_invoke [of s a] show ?thesis by simp
  qed
next
  case (EbbResolves i v)
  with assms(1) show ?thesis
    by (auto simp: serial_proceed split: option.splits proc.splits)
next
  case (EbbRejects i)
  with assms(1) show ?thesis
    by (auto simp: serial_reject split: option.splits proc.splits)
next
  case (TimerFires i)
  with assms(1) show ?thesis
    by (auto simp: serial_proceed split: option.splits proc.splits)
qed

lemma serial_run:
  "serial s \<Longrightarrow> calm evs s \<Longrightarrow> serial (run evs s)"
proof (induction evs arbitrary: s)
  case Nil
  then show ?case by simp
next
  case (Cons e evs)
  from Cons.prems have "serial (step e s)"
    by (intro serial_step) (auto split: if_splits)
  with Cons.IH [of "step e s"] Cons.prems(2) show ?case
    by simp
qed

text \<open>What a call does to the queue, by whether it submits an operation.\<close>

lemma command_effect:
  "enqueued (command i f t) = enqueued t @ [i]
   \<and> commands (command i f t) = commands t @ [(i, f)]
   \<and> (if commands t = []
       then running (command i f t) = running t @ [(i, Await_ebb (fst f) (snd f))]
          \<and> ebb_log (command i f t) = ebb_log t @ [(i, fst f)]
       else running (command i f t) = running t \<and> ebb_log (command i f t) = ebb_log t)"
  by (simp add: command_def executeCommand_def Let_def)

lemma submits_command:
  assumes "submits a s"
  obtains f t where "step (Invoke a) s = command (next_id s) f t"
    and "enqueued t = enqueued s" and "commands t = commands s"
    and "running t = running s" and "ebb_log t = ebb_log s"
proof (cases a)
  case (MoveTo x y)
  with assms that [of _ "s\<lparr> next_id := next_id s + 1, targetPos := \<lparr> px = x, py = y \<rparr>,
      lastCommandedPos := \<lparr> px = x, py = y \<rparr> \<rparr>"] show thesis
    by (simp add: moveTo_def Let_def)
qed (use assms that [of _ "s\<lparr> next_id := next_id s + 1 \<rparr>"] in
      \<open>simp_all add: guard_defs Let_def\<close>)

lemma submits_step:
  assumes "serial s" and "submits a s"
  shows "enqueued (step (Invoke a) s) = enqueued s @ [next_id s]"
    and "map fst (commands (step (Invoke a) s)) = map fst (commands s) @ [next_id s]"
    and "commands s = [] \<Longrightarrow> map fst (running (step (Invoke a) s)) = [next_id s]"
    and "commands s = [] \<Longrightarrow> length (calls_of (next_id s) (step (Invoke a) s)) = 1"
    and "commands s \<noteq> [] \<Longrightarrow> running (step (Invoke a) s) = running s"
    and "commands s \<noteq> [] \<Longrightarrow> ebb_log (step (Invoke a) s) = ebb_log s"
proof -
  from assms(2) obtain f t where st: "step (Invoke a) s = command (next_id s) f t"
    and t: "enqueued t = enqueued s" "commands t = commands s"
      "running t = running s" "ebb_log t = ebb_log s"
    by (rule submits_command)
  note ce = command_effect [of "next_id s" f t]
  from assms(1) have r: "commands s = [] \<Longrightarrow> running s = []"
    by (simp add: serial_def)
  have "fst e \<noteq> next_id s" if "e \<in> set (ebb_log s)" for e
    using serial_log(1) [OF assms(1), of "fst e" "snd e"] that by auto
  then have l: "filter (\<lambda>e. fst e = next_id s) (ebb_log s) = []"
    by (auto simp: filter_empty_conv)
  show "enqueued (step (Invoke a) s) = enqueued s @ [next_id s]"
    using ce st t by simp
  show "map fst (commands (step (Invoke a) s)) = map fst (commands s) @ [next_id s]"
    using ce st t by simp
  show "commands s = [] \<Longrightarrow> map fst (running (step (Invoke a) s)) = [next_id s]"
    using ce st t r by simp
  show "commands s = [] \<Longrightarrow> length (calls_of (next_id s) (step (Invoke a) s)) = 1"
    using ce st t l by (simp add: calls_of_def)
  show "commands s \<noteq> [] \<Longrightarrow> running (step (Invoke a) s) = running s"
    using ce st t by simp
  show "commands s \<noteq> [] \<Longrightarrow> ebb_log (step (Invoke a) s) = ebb_log s"
    using ce st t by simp
qed

lemma not_submits_step:
  assumes "\<not> submits a s"
  shows "enqueued (step (Invoke a) s) = enqueued s \<and> running (step (Invoke a) s) = running s"
  using assms
  by (cases a) (auto simp: guard_defs setSpeed_def stop_def moveTo_def settle_def Let_def)

lemma then_callback_completes:
  "completes i r s (then_callback i r (s\<lparr> running := [] \<rparr>))"
  by (cases "commands s"; cases "tl (commands s)")
    (auto simp: completes_def then_callback_def executeCommand_def)

lemma resolve_completes:
  assumes "running s = [(i, Await_ebb c k)]" and "k v = Return r"
  shows "completes i r s (step (EbbResolves i v) s)"
  using assms then_callback_completes [of i r s] by (simp add: forget_def)

lemma timer_completes:
  assumes "running s = [(i, Await_wait ms (Return r))]"
  shows "completes i r s (step (TimerFires i) s)"
  using assms then_callback_completes [of i r s] by (simp add: forget_def)

subsection \<open>Calls that left the queue without being started\<close>

lemma dropped_command:
  assumes "dropped j s"
  shows "dropped j (command (next_id s) f (s\<lparr> next_id := Suc (next_id s) \<rparr>))"
    and "calls_of j (command (next_id s) f (s\<lparr> next_id := Suc (next_id s) \<rparr>)) = calls_of j s"
  using assms by (auto simp: dropped_def calls_of_def command_def executeCommand_def Let_def)

lemma dropped_invoke:
  assumes "dropped j s"
  shows "dropped j (invoke a (next_id s) (s\<lparr> next_id := Suc (next_id s) \<rparr>))
       \<and> calls_of j (invoke a (next_id s) (s\<lparr> next_id := Suc (next_id s) \<rparr>)) = calls_of j s"
proof -
  have cmd: "dropped j (command (next_id s) f (s\<lparr> next_id := Suc (next_id s) \<rparr>))
     \<and> calls_of j (command (next_id s) f (s\<lparr> next_id := Suc (next_id s) \<rparr>)) = calls_of j s"
    for f
    using dropped_command [OF assms] by simp
  from assms have ne: "next_id s \<noteq> j" by (simp add: dropped_def)
  show ?thesis
  proof (cases a)
    case (MoveTo x y)
    have "dropped j (command (next_id s) f (s\<lparr> next_id := Suc (next_id s), targetPos := tp,
              lastCommandedPos := lp \<rparr>))
       \<and> calls_of j (command (next_id s) f (s\<lparr> next_id := Suc (next_id s), targetPos := tp,
              lastCommandedPos := lp \<rparr>)) = calls_of j s" for f tp lp
      using assms
      by (auto simp: dropped_def calls_of_def command_def executeCommand_def Let_def)
    with MoveTo assms ne show ?thesis
      by (simp add: moveTo_def Let_def settle_def) (simp add: dropped_def calls_of_def)
  qed (use assms cmd ne in \<open>auto simp: guard_defs setSpeed_def stop_def settle_def Let_def
        dropped_def calls_of_def\<close>)
qed

lemma dropped_proceed:
  assumes "dropped j s" and "map_of (running s) i = Some q"
  shows "dropped j (proceed i p (s\<lparr> running := forget i (running s) \<rparr>))
       \<and> calls_of j (proceed i p (s\<lparr> running := forget i (running s) \<rparr>)) = calls_of j s"
proof -
  from assms have ne: "i \<noteq> j"
    using map_of_fst [OF assms(2)] by (auto simp: dropped_def)
  show ?thesis
  proof (cases p)
    case (Return v)
    show ?thesis
    proof (cases "commands s")
      case Nil
      with Return assms(1) show ?thesis
        by (auto simp: dropped_def calls_of_def then_callback_def forget_def)
    next
      case (Cons c cs)
      with Return assms(1) show ?thesis
        by (cases cs)
          (auto simp: dropped_def calls_of_def then_callback_def executeCommand_def forget_def)
    qed
  qed (use assms(1) ne in \<open>auto simp: dropped_def calls_of_def forget_def\<close>)
qed

lemma dropped_direct_resolved [simp]:
  "dropped j (direct_resolved i d v s) = dropped j s"
  "calls_of j (direct_resolved i d v s) = calls_of j s"
  by (cases d; simp add: dropped_def calls_of_def settle_def)+

lemma dropped_step:
  assumes "dropped j s"
  shows "dropped j (step e s) \<and> calls_of j (step e s) = calls_of j s"
proof (cases e)
  case (Invoke a)
  with dropped_invoke [OF assms, of a] show ?thesis by simp
next
  case (EbbResolves i v)
  with assms show ?thesis
    by (auto simp: dropped_proceed split: option.splits proc.splits)
       (auto simp: dropped_def calls_of_def)
next
  case (EbbRejects i)
  with assms show ?thesis
    by (auto simp: dropped_def calls_of_def forget_def settle_def
        split: option.splits proc.splits)
next
  case (TimerFires i)
  with assms show ?thesis
    by (auto simp: dropped_proceed split: option.splits proc.splits)
qed

lemma dropped_run:
  "dropped j s \<Longrightarrow> dropped j (run evs s) \<and> calls_of j (run evs s) = calls_of j s"
  by (induction evs arbitrary: s) (auto simp: dropped_step)

subsection \<open>A queue whose head has thrown\<close>

lemma stuck_invoke:
  assumes "stuck j s" and "a \<noteq> Stop"
  shows "stuck j (invoke a (next_id s) (s\<lparr> next_id := Suc (next_id s) \<rparr>))
       \<and> fulfilled (invoke a (next_id s) (s\<lparr> next_id := Suc (next_id s) \<rparr>)) = fulfilled s
       \<and> settled_of j (invoke a (next_id s) (s\<lparr> next_id := Suc (next_id s) \<rparr>)) = settled_of j s
       \<and> calls_of j (invoke a (next_id s) (s\<lparr> next_id := Suc (next_id s) \<rparr>)) = calls_of j s"
proof -
  from assms(1) have ne: "next_id s \<noteq> j" and c: "commands s \<noteq> []"
    by (simp_all add: stuck_def stalled_def)
  show ?thesis
    using assms ne c
    by (cases a)
      (auto simp: guard_defs setSpeed_def moveTo_def settle_def Let_def command_def
        stuck_def stalled_def settled_of_def calls_of_def)
qed

lemma stuck_step:
  assumes "stuck j s" and "e \<noteq> Invoke Stop"
  shows "stuck j (step e s) \<and> fulfilled (step e s) = fulfilled s
       \<and> settled_of j (step e s) = settled_of j s \<and> calls_of j (step e s) = calls_of j s"
proof (cases e)
  case (Invoke a)
  with stuck_invoke [OF assms(1), of a] assms(2) show ?thesis by simp
next
  case (EbbResolves i v)
  have "i \<noteq> j" if "map_of (direct s) i = Some d" for d
    using map_of_fst [OF that] assms(1) by (auto simp: stuck_def)
  with EbbResolves assms(1) show ?thesis
    by (auto simp: stuck_def stalled_def direct_resolved_settled calls_of_def forget_def
        split: option.splits)
next
  case (EbbRejects i)
  have "i \<noteq> j" if "map_of (direct s) i = Some d" for d
    using map_of_fst [OF that] assms(1) by (auto simp: stuck_def)
  with EbbRejects assms(1) show ?thesis
    by (auto simp: stuck_def stalled_def settled_of_def calls_of_def settle_def forget_def
        split: option.splits)
next
  case (TimerFires i)
  with assms(1) show ?thesis
    by (simp add: stuck_def stalled_def)
qed

lemma stuck_run:
  "stuck j s \<Longrightarrow> stop_free evs \<Longrightarrow>
   stuck j (run evs s) \<and> fulfilled (run evs s) = fulfilled s
   \<and> settled_of j (run evs s) = settled_of j s \<and> calls_of j (run evs s) = calls_of j s"
proof (induction evs arbitrary: s)
  case Nil
  then show ?case by simp
next
  case (Cons e evs)
  from Cons.prems have e: "e \<noteq> Invoke Stop" and evs: "stop_free evs"
    by (auto simp: stop_free_def)
  from stuck_step [OF Cons.prems(1) e] Cons.IH [OF _ evs, of "step e s"]
  show ?case by simp
qed

section \<open>The claims\<close>

subsection \<open>The command serializer\<close>

text \<open>
  C1. The claim is that the failure of a thunk reaches the caller awaiting it and that
  the queue goes on to the next operation. The code does neither. On a connected
  controller, \<open>analogRead(3)\<close> is called for a channel that was never enabled and
  \<open>moveTo(10, 0)\<close> is called behind it; the driver answers the read without a value for
  channel 3 and the thunk throws. The rejection is handled by nobody: the promise of
  \<open>analogRead\<close> is neither fulfilled nor rejected, both entries stay in the queue, no
  thunk is in flight and the driver has not received the move. As long as \<open>stop\<close> is
  not called this does not change, whatever is called and whatever the driver and the
  timers do: nothing is fulfilled any more, the caller of \<open>analogRead\<close> is never
  answered, the driver never receives the move, and \<open>isBusy\<close> stays true.
\<close>

theorem failed_thunk_stalls_queue:
  "unhandled failed_read = [(1, ChannelNotEnabled)]
   \<and> fulfilled failed_read = [] \<and> settled_of 1 failed_read = []
   \<and> enqueued failed_read = [1, 2] \<and> map fst (commands failed_read) = [1, 2]
   \<and> running failed_read = []
   \<and> ebb_log failed_read = [(0, Ebb_connect), (1, Ebb_analogValueGet 3)]
   \<and> (\<forall>evs. stop_free evs \<longrightarrow>
         fulfilled (run evs failed_read) = [] \<and> settled_of 1 (run evs failed_read) = []
         \<and> calls_of 2 (run evs failed_read) = [] \<and> running (run evs failed_read) = []
         \<and> isBusy (run evs failed_read))"
proof -
  have eq: "failed_read = connected_idle\<lparr>
      targetPos := \<lparr>px = 10, py = 0\<rparr>, lastCommandedPos := \<lparr>px = 10, py = 0\<rparr>,
      commands := [(1, analogRead_cmd 3),
                   (2, Ebb_stepperMoveMixedAxis (Finite 400) 800 0,
                       \<lambda>_. Await_wait (Finite 400) (Return Undefined))],
      ebb_log := [(0, Ebb_connect), (1, Ebb_analogValueGet 3)],
      unhandled := [(1, ChannelNotEnabled)], enqueued := [1, 2], next_id := 3 \<rparr>"
    by (simp add: failed_read_def connected_idle_eq constructor_def op_defs analogRead_cmd_def
        distance_def Let_def STEPS_PER_MM_def)
  have s1: "stuck 1 failed_read" and s2: "stuck 2 failed_read"
    by (simp_all add: eq connected_idle_eq constructor_def stuck_def stalled_def)
  have now: "fulfilled failed_read = []" "settled_of 1 failed_read = []"
    "calls_of 2 failed_read = []"
    by (simp_all add: eq connected_idle_eq constructor_def settled_of_def calls_of_def)
  have "fulfilled (run evs failed_read) = [] \<and> settled_of 1 (run evs failed_read) = []
      \<and> calls_of 2 (run evs failed_read) = [] \<and> running (run evs failed_read) = []
      \<and> isBusy (run evs failed_read)" if "stop_free evs" for evs
    using stuck_run [OF s1 that] stuck_run [OF s2 that] now
    by (simp add: stuck_def stalled_def isBusy_def)
  then show ?thesis
    using now by (simp add: eq connected_idle_eq constructor_def)
qed

theorem failed_thunk_stalls_queue_witness:
  "stop_free [Invoke (MoveTo 20 0), EbbResolves 1 (AnalogValues [(3, 512)]), TimerFires 2,
              Invoke PenUp]
   \<and> (let s = run [Invoke (MoveTo 20 0), EbbResolves 1 (AnalogValues [(3, 512)]), TimerFires 2,
                   Invoke PenUp] failed_read
      in fulfilled s = [] \<and> settled_of 1 s = [] \<and> calls_of 2 s = [] \<and> running s = []
       \<and> map fst (commands s) = [1, 2, 3, 4]
       \<and> ebb_log s = [(0, Ebb_connect), (1, Ebb_analogValueGet 3)])"
  using failed_thunk_stalls_queue
  by (simp add: stop_free_def failed_read_def connected_idle_eq constructor_def op_defs
      analogRead_cmd_def distance_def Let_def STEPS_PER_MM_def settled_of_def calls_of_def)

text \<open>
  The claim C3 is made for every sequence of operations. After \<open>enable\<close>, \<open>stop\<close>,
  \<open>disable\<close> on a connected controller the thunks of \<open>enable\<close> (call 1) and of \<open>disable\<close>
  (call 3) are both in flight: \<open>stop\<close> emptied the queue under the thunk of \<open>enable\<close>,
  so \<open>#command\<close> found nothing pending and started \<open>disable\<close> at once, and the driver has
  received the second \<open>enableMotors\<close> before it answered the first. When it answers
  the second first, \<open>disable\<close> completes before \<open>enable\<close>, against the order of
  submission.
\<close>

theorem stop_breaks_serializer:
  "enqueued after_stop = [1, 3]
   \<and> map fst (running after_stop) = [1, 3]
   \<and> fulfilled after_stop = []
   \<and> ebb_log after_stop
      = [(0, Ebb_connect), (1, Ebb_enableMotors MOTOR_STEP_DIV16 MOTOR_STEP_DIV16),
         (2, Ebb_emergencyStop False), (3, Ebb_enableMotors MOTOR_DISABLE MOTOR_DISABLE)]
   \<and> map fst (fulfilled after_stop_answers) = [3, 1]"
  by (simp add: after_stop_answers_def after_stop_def connected_idle_eq constructor_def op_defs)

text \<open>
  C3, amended. Whatever public methods are called and whatever the driver and the
  timers do, in any order, as long as \<open>stop\<close> is called only while the controller is
  not connected or its queue is empty (thunks may fail), in the state \<open>s\<close> reached:
  \<^item> the calls fulfilled so far, in the order of their completion, followed by the calls
    in the queue are exactly the calls of \<open>#command\<close> in the order they were made: the
    operations complete in the order of submission and none is passed over;
  \<^item> at most one thunk is in flight, and it belongs to the head of the queue;
  \<^item> the head of the queue is in flight, unless its thunk has thrown;
  \<^item> every driver call made so far for an enqueued operation was made for one that is
    fulfilled or for the head of the queue: the driver sees nothing of an operation
    before all earlier ones have resolved;
  \<^item> a public call that submits an operation appends it to the calls of \<open>#command\<close> and
    to the queue; when the queue was empty the operation is started in the call (its
    thunk is the one in flight and the driver has received its one first call), and
    otherwise nothing is started and the driver receives nothing; a public call that
    submits no operation leaves the calls of \<open>#command\<close> and the thunks in flight alone;
  \<^item> when the thunk in flight returns, on a driver answer or on a timer, its operation
    is fulfilled and removed from the queue, and that step starts the next operation
    of the queue: operation n+1 is started by the completion of operation n.
\<close>

theorem serializer_fifo:
  assumes "calm evs constructor"
  shows "let s = run evs constructor in
           map fst (fulfilled s) @ map fst (commands s) = enqueued s
         \<and> (running s = [] \<or> map fst (running s) = head_id (commands s))
         \<and> set (head_id (commands s)) \<subseteq> fst ` set (running s) \<union> fst ` set (unhandled s)
         \<and> (\<forall>e \<in> set (ebb_log s). fst e \<in> set (enqueued s) \<longrightarrow>
               fst e \<in> fst ` set (fulfilled s) \<union> set (head_id (commands s)))
         \<and> (\<forall>a. submits a s \<longrightarrow>
               enqueued (step (Invoke a) s) = enqueued s @ [next_id s]
               \<and> map fst (commands (step (Invoke a) s)) = map fst (commands s) @ [next_id s]
               \<and> (if commands s = []
                   then map fst (running (step (Invoke a) s)) = [next_id s]
                      \<and> length (calls_of (next_id s) (step (Invoke a) s)) = 1
                   else running (step (Invoke a) s) = running s
                      \<and> ebb_log (step (Invoke a) s) = ebb_log s))
         \<and> (\<forall>a. \<not> submits a s \<longrightarrow>
               enqueued (step (Invoke a) s) = enqueued s
               \<and> running (step (Invoke a) s) = running s)
         \<and> (\<forall>i c k v r. running s = [(i, Await_ebb c k)] \<and> k v = Return r \<longrightarrow>
               completes i r s (step (EbbResolves i v) s))
         \<and> (\<forall>i ms r. running s = [(i, Await_wait ms (Return r))] \<longrightarrow>
               completes i r s (step (TimerFires i) s))"
proof -
  let ?s = "run evs constructor"
  have s: "serial ?s"
    using serial_run [OF serial_constructor assms] .
  then have "map fst (fulfilled ?s) @ map fst (commands ?s) = enqueued ?s"
    and "running ?s = [] \<or> map fst (running ?s) = head_id (commands ?s)"
    and "set (head_id (commands ?s)) \<subseteq> fst ` set (running ?s) \<union> fst ` set (unhandled ?s)"
    and "\<forall>e \<in> set (ebb_log ?s). fst e \<in> set (enqueued ?s) \<longrightarrow>
               fst e \<in> fst ` set (fulfilled ?s) \<union> set (head_id (commands ?s))"
    by (simp_all add: serial_def)
  moreover have "enqueued (step (Invoke a) ?s) = enqueued ?s @ [next_id ?s]
               \<and> map fst (commands (step (Invoke a) ?s)) = map fst (commands ?s) @ [next_id ?s]
               \<and> (if commands ?s = []
                   then map fst (running (step (Invoke a) ?s)) = [next_id ?s]
                      \<and> length (calls_of (next_id ?s) (step (Invoke a) ?s)) = 1
                   else running (step (Invoke a) ?s) = running ?s
                      \<and> ebb_log (step (Invoke a) ?s) = ebb_log ?s)" if "submits a ?s" for a
    using submits_step [OF s that] by (simp del: step.simps)
  moreover have "enqueued (step (Invoke a) ?s) = enqueued ?s
               \<and> running (step (Invoke a) ?s) = running ?s" if "\<not> submits a ?s" for a
    using not_submits_step [OF that] .
  moreover have "completes i r ?s (step (EbbResolves i v) ?s)"
    if "running ?s = [(i, Await_ebb c k)] \<and> k v = Return r" for i c k v r
    using that resolve_completes [of ?s i c k v r] by blast
  moreover have "completes i r ?s (step (TimerFires i) ?s)"
    if "running ?s = [(i, Await_wait ms (Return r))]" for i ms r
    using that by (rule timer_completes)
  ultimately show ?thesis
    unfolding Let_def by blast
qed

text \<open>
  \<open>stop\<close> on the new, unconnected controller; then a move and \<open>penDown\<close> behind it on the
  connected one. The move is started in its call; \<open>penDown\<close> is started by the step
  that completes the move.
\<close>

theorem serializer_fifo_witness:
  "calm [Invoke Stop, Invoke Connect, EbbResolves 1 Undefined, Invoke (MoveTo 3 4),
         Invoke PenDown, EbbResolves 2 Undefined, TimerFires 2, EbbResolves 3 (Bool False)]
     constructor
   \<and> submits PenDown (run [Invoke Stop, Invoke Connect, EbbResolves 1 Undefined,
                            Invoke (MoveTo 3 4)] constructor)
   \<and> running (run [Invoke Stop, Invoke Connect, EbbResolves 1 Undefined, Invoke (MoveTo 3 4),
                   Invoke PenDown, EbbResolves 2 Undefined] constructor)
      = [(2, Await_wait (Finite 200) (Return Undefined))]
   \<and> fulfilled (run [Invoke Stop, Invoke Connect, EbbResolves 1 Undefined, Invoke (MoveTo 3 4),
                     Invoke PenDown, EbbResolves 2 Undefined, TimerFires 2,
                     EbbResolves 3 (Bool False)] constructor) = [(2, Undefined)]
   \<and> map fst (commands (run [Invoke Stop, Invoke Connect, EbbResolves 1 Undefined,
                     Invoke (MoveTo 3 4), Invoke PenDown, EbbResolves 2 Undefined, TimerFires 2,
                     EbbResolves 3 (Bool False)] constructor)) = [3]
   \<and> enqueued (run [Invoke Stop, Invoke Connect, EbbResolves 1 Undefined, Invoke (MoveTo 3 4),
                     Invoke PenDown, EbbResolves 2 Undefined, TimerFires 2,
                     EbbResolves 3 (Bool False)] constructor) = [2, 3]
   \<and> map fst (running (run [Invoke Stop, Invoke Connect, EbbResolves 1 Undefined,
                     Invoke (MoveTo 3 4), Invoke PenDown, EbbResolves 2 Undefined, TimerFires 2,
                     EbbResolves 3 (Bool False)] constructor)) = [3]
   \<and> ebb_log (run [Invoke Stop, Invoke Connect, EbbResolves 1 Undefined, Invoke (MoveTo 3 4),
                     Invoke PenDown, EbbResolves 2 Undefined, TimerFires 2,
                     EbbResolves 3 (Bool False)] constructor)
      = [(1, Ebb_connect), (2, Ebb_stepperMoveMixedAxis (Finite 200) 240 320),
         (3, Ebb_queryPen), (3, Ebb_setPenState True)]"
  using serializer_fifo [of "[Invoke Stop, Invoke Connect, EbbResolves 1 Undefined,
     Invoke (MoveTo 3 4), Invoke PenDown, EbbResolves 2 Undefined, TimerFires 2,
     EbbResolves 3 (Bool False)]"]
  by (simp add: constructor_def op_defs distance_def Let_def STEPS_PER_MM_def penDown_cmd_def)

subsection \<open>Operations on a controller that is not connected\<close>

text \<open>
  Every public operation other than \<open>connect\<close>, \<open>setPenHeight\<close> and \<open>setSpeed\<close> tests
  \<open>connected\<close> first: not connected, it settles its promise at once (\<open>currentPosition\<close>
  by throwing) and does nothing else.
\<close>

lemma unconnected_no_effect:
  assumes "\<not> connectedF s" and "a \<noteq> Connect"
    and "\<forall>h. a \<noteq> SetPenHeight h" and "\<forall>v. a \<noteq> SetSpeed v"
  shows "invoke a i s
         = settle i (if a = CurrentPosition then Rejected NotConnected
                     else Fulfilled Undefined) s"
  using assms by (cases a) (simp_all add: guard_defs stop_def moveTo_def)

text \<open>
  C2. The claim is that every public operation but \<open>connect\<close>, \<open>setPenHeight\<close> included,
  calls no driver function and enqueues nothing while the controller is not connected.
  \<open>setPenHeight\<close> does not test \<open>connected\<close>: in every state it enqueues its operation,
  after which \<open>isBusy\<close> is true. On a new controller, which is not connected,
  \<open>setPenHeight(0.5)\<close> enqueues the operation, starts it and calls the driver's
  \<open>servoOutput(32767, SERVO_CHANNEL_PEN, 32000)\<close>.
\<close>

theorem setPenHeight_ignores_connected:
  "enqueued (setPenHeight h i s) = enqueued s @ [i]
   \<and> isBusy (setPenHeight h i s)
   \<and> \<not> connectedF constructor
   \<and> step (Invoke (SetPenHeight (1/2))) constructor
      = constructor\<lparr> commands := [(0, Ebb_servoOutput 32767 SERVO_CHANNEL_PEN 32000, Return)],
           ebb_log := [(0, Ebb_servoOutput 32767 SERVO_CHANNEL_PEN 32000)],
           running := [(0, Await_ebb (Ebb_servoOutput 32767 SERVO_CHANNEL_PEN 32000) Return)],
           enqueued := [0], next_id := 1 \<rparr>"
  by (simp add: setPenHeight_def command_def executeCommand_def isBusy_def Let_def
      constructor_def)

subsection \<open>Speed\<close>

text \<open>
  The claim C6 is made for every input. \<open>setSpeed(NaN)\<close>, and so \<open>setSpeed(undefined)\<close>,
  stores NaN: \<open>Math.min\<close> and \<open>Math.max\<close> return NaN when an argument is NaN. The speed
  stored is then not in the range.
\<close>

theorem setSpeed_NaN:
  "mmPerSec (setSpeed NaN constructor) = NaN
   \<and> \<not> speed_in_range (mmPerSec (setSpeed NaN constructor))"
  by (simp add: setSpeed_def)

text \<open>
  C6, amended. For every input \<open>v\<close> that is a number other than NaN, \<open>setSpeed v\<close> stores
  \<open>MIN_MM_PER_SEC\<close> = 1.31/80 when \<open>v\<close> is below it, \<open>MAX_MM_PER_SEC\<close> = 380 when \<open>v\<close> is
  above it, and \<open>v\<close> itself otherwise, so the speed stored is in the range. For every
  input, NaN included, it changes no other field (so it enqueues nothing, calls no
  driver function and rejects nothing) and, as an event, only takes the next call
  number besides. \<open>setSpeed(-5)\<close> stores the minimum, \<open>setSpeed(1000)\<close> the maximum, and a
  new controller has speed 25.
\<close>

theorem setSpeed_clamps:
  "mmPerSec (setSpeed (Finite v) s)
     = Finite (if v < MIN_MM_PER_SEC then MIN_MM_PER_SEC
               else if MAX_MM_PER_SEC < v then MAX_MM_PER_SEC else v)
   \<and> speed_in_range (mmPerSec (setSpeed (Finite v) s))
   \<and> setSpeed w s = s\<lparr> mmPerSec := mmPerSec (setSpeed w s) \<rparr>
   \<and> step (Invoke (SetSpeed w)) s = setSpeed w (s\<lparr> next_id := next_id s + 1 \<rparr>)
   \<and> mmPerSec (setSpeed (Finite (- 5)) s) = Finite MIN_MM_PER_SEC
   \<and> mmPerSec (setSpeed (Finite 1000) s) = Finite MAX_MM_PER_SEC
   \<and> MIN_MM_PER_SEC = 131 / 100 / 80 \<and> MAX_MM_PER_SEC = 380
   \<and> mmPerSec constructor = Finite 25"
  by (simp add: setSpeed_def MIN_MM_PER_SEC_def MAX_MM_PER_SEC_def STEPS_PER_MM_def
      constructor_def)

subsection \<open>Position query\<close>

text \<open>
  C5. The inverse map of \<open>currentPosition\<close> undoes the CoreXY encoding: when the driver
  answers the step query with \<open>m1Steps = dx*80 + dy*80\<close> and \<open>m2Steps = dx*80 - dy*80\<close>,
  the thunk returns \<open>{x: dx, y: dy}\<close>, and that is the value the caller of
  \<open>currentPosition\<close> on a connected controller receives (exactly, over the reals).
\<close>

theorem currentPosition_round_trip:
  "snd currentPosition_cmd
     (StepArray (dx * STEPS_PER_MM + dy * STEPS_PER_MM) (dx * STEPS_PER_MM - dy * STEPS_PER_MM))
     = Return (Position \<lparr> px = dx, py = dy \<rparr>)
   \<and> fulfilled (run [Invoke CurrentPosition,
                     EbbResolves 1 (StepArray (dx * 80 + dy * 80) (dx * 80 - dy * 80))]
                  connected_idle)
     = [(1, Position \<lparr> px = dx, py = dy \<rparr>)]"
  by (simp add: currentPosition_cmd_def STEPS_PER_MM_def op_defs connected_idle_eq
      constructor_def)

subsection \<open>Moves\<close>





subsection \<open>Pen\<close>

text \<open>
  C8. On a connected controller \<open>penUp\<close> and \<open>penDown\<close> enqueue their thunks. Whenever
  such a thunk is started (\<open>executeCommand\<close>, for a call \<open>i\<close> that has no thunk in flight
  yet) the driver is asked for the pen state first; when it answers \<open>d\<close> (pen down or
  not) the driver is told the requested state, \<open>setPenState(false)\<close> for \<open>penUp\<close> and
  \<open>setPenState(true)\<close> for \<open>penDown\<close>; when it acknowledges,
  \<^item> if the pen was in the other state (\<open>d\<close> for \<open>penUp\<close>, not \<open>d\<close> for \<open>penDown\<close>) the
    thunk is suspended on \<open>wait(1000)\<close>, nothing is fulfilled yet, and the operation
    resolves when that timer fires;
  \<^item> otherwise the operation resolves at once, with no wait.
  Resolving is the callback of \<open>executeCommand\<close>, which fulfils the promise of call \<open>i\<close>.
\<close>

theorem pen_settle_wait:
  assumes "i \<notin> fst ` set (running s)"
  shows "let sent = (\<lambda>down. s\<lparr> ebb_log := ebb_log s @ [(i, Ebb_queryPen),
                                                      (i, Ebb_setPenState down)] \<rparr>);
             waiting = (\<lambda>down. (sent down)\<lparr> running := running s @
                                    [(i, Await_wait (Finite 1000) (Return Undefined))] \<rparr>);
             up = run [EbbResolves i (Bool d), EbbResolves i ack]
                    (executeCommand i penUp_cmd s);
             down = run [EbbResolves i (Bool d), EbbResolves i ack]
                      (executeCommand i penDown_cmd s)
         in up = (if d then waiting False else then_callback i Undefined (sent False))
          \<and> down = (if \<not> d then waiting True else then_callback i Undefined (sent True))
          \<and> step (TimerFires i) (waiting False) = then_callback i Undefined (sent False)
          \<and> step (TimerFires i) (waiting True) = then_callback i Undefined (sent True)
          \<and> fulfilled (then_callback i Undefined (sent False)) = fulfilled s @ [(i, Undefined)]
          \<and> fulfilled (then_callback i Undefined (sent True)) = fulfilled s @ [(i, Undefined)]
          \<and> fulfilled (waiting False) = fulfilled s \<and> fulfilled (waiting True) = fulfilled s
          \<and> (connectedF s \<longrightarrow> penUp i s = command i penUp_cmd s
                              \<and> penDown i s = command i penDown_cmd s)"
proof -
  note r = resolve_running [OF assms] timer_running [OF assms]
  have f: "fulfilled (then_callback i v t) = fulfilled t @ [(i, v)]" for v t
    by (simp add: then_callback_def executeCommand_def Let_def split: list.splits)
  show ?thesis
    by (simp add: penUp_def penDown_def penUp_cmd_def penDown_cmd_def executeCommand_def r f
        Let_def del: step.simps)
qed

text \<open>
  The pen is up; \<open>penDown\<close> waits for the timer; a second \<open>penDown\<close> (the driver now
  reports the pen down) resolves on the driver's acknowledgement; a \<open>penUp\<close> after it is
  suspended on the timer and resolves when it fires.
\<close>

theorem pen_settle_wait_witness:
  "1 \<notin> fst ` set (running connected_idle)
   \<and> connectedF connected_idle
   \<and> (let s = run [Invoke PenDown, EbbResolves 1 (Bool False), EbbResolves 1 Undefined]
                connected_idle
      in fulfilled s = [] \<and> running s = [(1, Await_wait (Finite 1000) (Return Undefined))])
   \<and> (let s = run [Invoke PenDown, EbbResolves 1 (Bool False), EbbResolves 1 Undefined,
                   TimerFires 1,
                   Invoke PenDown, EbbResolves 2 (Bool True), EbbResolves 2 Undefined,
                   Invoke PenUp, EbbResolves 3 (Bool True), EbbResolves 3 Undefined]
                connected_idle
      in fulfilled s = [(1, Undefined), (2, Undefined)]
       \<and> running s = [(3, Await_wait (Finite 1000) (Return Undefined))]
       \<and> fulfilled (step (TimerFires 3) s) = [(1, Undefined), (2, Undefined), (3, Undefined)])"
  using pen_settle_wait [of 1 connected_idle False Undefined]
  by (simp add: connected_idle_eq constructor_def penUp_def penDown_def penUp_cmd_def
      penDown_cmd_def command_def executeCommand_def then_callback_def forget_def Let_def)

subsection \<open>Emergency stop\<close>

text \<open>
  C9. On a connected controller \<open>stop()\<close> calls the driver's \<open>emergencyStop(false)\<close> in
  the call itself, without enqueuing anything, and empties the queue, so that \<open>isBusy\<close>
  is false right after it; the thunks in flight are left as they are. For a call \<open>j\<close>
  that was in the queue and had not been started (no thunk in flight, no driver call
  made for it yet), no driver call is ever made, whatever is called afterwards and
  whatever the driver and the timers do.
\<close>

theorem stop_clears_queue:
  assumes "connectedF s"
    and "j \<in> fst ` set (commands s)" and "j \<notin> fst ` set (running s)" and "calls_of j s = []"
    and "j < next_id s"
  shows "let s' = step (Invoke Stop) s in
           ebb_log s' = ebb_log s @ [(next_id s, Ebb_emergencyStop False)]
         \<and> enqueued s' = enqueued s \<and> running s' = running s
         \<and> commands s' = [] \<and> \<not> isBusy s'
         \<and> (\<forall>evs. calls_of j (run evs s') = [])"
proof -
  let ?s' = "step (Invoke Stop) s"
  from assms have s': "?s' = s\<lparr> next_id := Suc (next_id s),
      ebb_log := ebb_log s @ [(next_id s, Ebb_emergencyStop False)],
      direct := direct s @ [(next_id s, Stopping)], commands := [] \<rparr>"
    by (simp add: stop_def)
  with assms have "dropped j ?s'" and "calls_of j ?s' = []"
    by (auto simp: dropped_def calls_of_def)
  with dropped_run [of j ?s'] have "calls_of j (run evs ?s') = []" for evs
    by simp
  with s' show ?thesis
    by (simp add: Let_def isBusy_def)
qed

theorem stop_clears_queue_witness:
  "connectedF three_moves \<and> map fst (commands three_moves) = [1, 2, 3]
   \<and> 3 \<in> fst ` set (commands three_moves) \<and> 3 \<notin> fst ` set (running three_moves)
   \<and> calls_of 3 three_moves = [] \<and> 3 < next_id three_moves
   \<and> isBusy three_moves
   \<and> \<not> isBusy (step (Invoke Stop) three_moves)
   \<and> ebb_log (run [EbbResolves 1 Undefined, TimerFires 1, EbbResolves 4 Undefined]
               (step (Invoke Stop) three_moves))
      = [(0, Ebb_connect), (1, Ebb_stepperMoveMixedAxis (Finite 400) 800 0), (4, Ebb_emergencyStop False)]
   \<and> calls_of 3 (run [EbbResolves 1 Undefined, TimerFires 1, EbbResolves 4 Undefined]
               (step (Invoke Stop) three_moves)) = []"
  using stop_clears_queue [of three_moves 3]
  by (simp add: three_moves_def connected_idle_eq constructor_def op_defs distance_def Let_def
      STEPS_PER_MM_def calls_of_def isBusy_def)

subsection \<open>Disconnecting\<close>

text \<open>
  C10. On a connected controller (the number of the call being new, as it always is)
  \<open>disconnect()\<close> calls the driver's \<open>disconnect\<close> in the call itself and changes nothing
  else: nothing is enqueued, and the queue, the thunks in flight, \<open>targetPos\<close>,
  \<open>lastCommandedPos\<close> and the speed stay as they are; \<open>connected\<close> is still true. When
  the driver's promise resolves, \<open>connected\<close> becomes false and the promise of
  \<open>disconnect\<close> is fulfilled; again the queue, the thunks in flight, the positions and
  the speed are untouched.
\<close>

theorem disconnect_bypasses_queue:
  assumes "connectedF s"
    and "next_id s \<notin> fst ` set (running s)" and "next_id s \<notin> fst ` set (direct s)"
  shows "let i = next_id s;
             s1 = step (Invoke Disconnect) s;
             s2 = step (EbbResolves i v) s1
         in s1 = s\<lparr> next_id := i + 1, ebb_log := ebb_log s @ [(i, Ebb_disconnect)],
                     direct := direct s @ [(i, Disconnecting)] \<rparr>
          \<and> s2 = s\<lparr> next_id := i + 1, ebb_log := ebb_log s @ [(i, Ebb_disconnect)],
                     connectedF := False, returned := returned s @ [(i, Fulfilled Undefined)] \<rparr>
          \<and> commands s2 = commands s \<and> running s2 = running s \<and> enqueued s2 = enqueued s
          \<and> targetPos s2 = targetPos s \<and> lastCommandedPos s2 = lastCommandedPos s
          \<and> mmPerSec s2 = mmPerSec s \<and> \<not> connectedF s2"
proof -
  from assms(2) have r: "map_of (running s) (next_id s) = None"
    by (simp add: map_of_eq_None_iff)
  from assms(3) have d: "map_of (direct s) (next_id s) = None"
    by (simp add: map_of_eq_None_iff)
  from assms(3) have f: "filter (\<lambda>e. fst e \<noteq> next_id s) (direct s) = direct s"
    by (force simp: filter_id_conv)
  show ?thesis
    using assms(1) r d f
    by (simp add: disconnect_def settle_def forget_def Let_def map_add_def)
qed

theorem disconnect_bypasses_queue_witness:
  "connectedF three_moves
   \<and> next_id three_moves \<notin> fst ` set (running three_moves)
   \<and> next_id three_moves \<notin> fst ` set (direct three_moves)
   \<and> (let s2 = run [Invoke Disconnect, EbbResolves 4 Undefined] three_moves
      in \<not> connectedF s2 \<and> map fst (commands s2) = [1, 2, 3] \<and> map fst (running s2) = [1]
       \<and> ebb_log s2 = [(0, Ebb_connect), (1, Ebb_stepperMoveMixedAxis (Finite 400) 800 0),
                         (4, Ebb_disconnect)]
       \<and> lastCommandedPos s2 = \<lparr> px = 0, py = 10 \<rparr> \<and> mmPerSec s2 = Finite 25)"
  using disconnect_bypasses_queue [of three_moves Undefined]
  by (simp add: three_moves_def connected_idle_eq constructor_def op_defs distance_def Let_def
      STEPS_PER_MM_def)

end
